theory Spec2Isabelle
  imports Main
begin

section \<open>An IPv4 address validator in C\<close>

text \<open>
  The program under study is one C function, \<^verbatim>\<open>int validate_ip(const char* ip)\<close>, and the
  interactive loop around it. The function copies its argument into a local buffer of 16
  bytes, scans the argument once for foreign characters and dots, then cuts the copy into
  tokens with \<^verbatim>\<open>strtok\<close> and checks every token with \<^verbatim>\<open>atoi\<close> and \<^verbatim>\<open>sprintf\<close>.

  The embedding keeps what the function touches: two arrays of bytes (the caller's and the
  local copy), pointers into them, the cursor that \<^verbatim>\<open>strtok\<close> keeps between calls, and the
  ways a run can go wrong. Every function returns either a fault or its result.
\<close>

subsection \<open>Memory\<close>

text \<open>
  A byte of memory is \<open>Some c\<close>, or \<open>None\<close> while it has never been written (the bytes of
  a fresh local array). A pointer is a region and an offset. \<open>olds\<close> is the static cursor of
  \<^verbatim>\<open>strtok\<close>. Reading past the end of a region, reading a byte that was never written, using
  a null cursor and converting a numeral that \<^verbatim>\<open>int\<close> cannot hold are the faults.
\<close>

datatype region = Caller | IpCopy

type_synonym ptr = "region \<times> nat"

record store =
  cells :: "region \<Rightarrow> char option list"
  olds :: "ptr option"

datatype fault = NullPointer | OutOfBounds | Indeterminate | Unrepresentable

definition NUL :: char where
  "NUL = CHR 0x00"

definition load :: "store \<Rightarrow> ptr \<Rightarrow> fault + char" where
  "load st p =
     (let b = cells st (fst p); i = snd p
      in if i < length b
         then (case b ! i of None \<Rightarrow> Inl Indeterminate | Some c \<Rightarrow> Inr c)
         else Inl OutOfBounds)"

fun scan :: "char option list \<Rightarrow> fault + string" where
  "scan [] = Inl OutOfBounds"
| "scan (None # cs) = Inl Indeterminate"
| "scan (Some c # cs) =
     (if c = NUL then Inr []
      else (case scan cs of Inl f \<Rightarrow> Inl f | Inr s \<Rightarrow> Inr (c # s)))"

definition c_str :: "store \<Rightarrow> ptr \<Rightarrow> fault + string" where
  "c_str st p = scan (drop (snd p) (cells st (fst p)))"

subsection \<open>The library calls\<close>

text \<open>
  The C library is not part of the program; its functions are written here as ISO C and the
  common implementations describe them.
  \<^item> \<open>isdigit\<close> and \<open>isspace\<close> classify a byte by its value, as the C locale does; bytes
    above 127 are neither (where \<^verbatim>\<open>char\<close> is signed they arrive as negative numbers, which
    the tables of the usual libraries cover).
  \<^item> \<open>strlen\<close> and \<open>strcpy\<close> read a string up to its terminator; \<open>strcpy\<close> faults when
    the destination is too small.
  \<^item> \<open>strtok\<close> skips leading delimiters, returns a null pointer when nothing is left,
    and otherwise overwrites the delimiter that ends the token with the terminator and
    leaves its cursor behind it. It writes into the array it is given.
  \<^item> \<open>atoi\<close> skips white space, reads a sign, then the longest run of digits. When the
    value does not fit an \<^verbatim>\<open>int\<close>, ISO C leaves the behaviour undefined, while the usual
    libraries hand back some \<^verbatim>\<open>int\<close> (wrapped or saturated). The parameter \<open>ovf\<close> says
    which: \<open>ovf v = None\<close> makes the call a fault, \<open>ovf v = Some k\<close> makes it return \<open>k\<close>.
  \<^item> \<open>sprintf_d cap n\<close> is \<^verbatim>\<open>sprintf(temp, "%d", n)\<close> into an array of \<open>cap\<close> bytes; \<open>dec\<close> is
    the decimal numeral of a natural number.
\<close>

definition isdigit :: "char \<Rightarrow> bool" where
  "isdigit c = (48 \<le> (of_char c :: nat) \<and> (of_char c :: nat) \<le> 57)"

definition isspace :: "char \<Rightarrow> bool" where
  "isspace c = ((of_char c :: nat) = 32 \<or> (9 \<le> (of_char c :: nat) \<and> (of_char c :: nat) \<le> 13))"

definition strlen :: "store \<Rightarrow> ptr \<Rightarrow> fault + nat" where
  "strlen st p = (case c_str st p of Inl f \<Rightarrow> Inl f | Inr s \<Rightarrow> Inr (length s))"

definition strcpy :: "store \<Rightarrow> ptr \<Rightarrow> ptr \<Rightarrow> fault + store" where
  "strcpy st dst src =
     (case c_str st src of
        Inl f \<Rightarrow> Inl f
      | Inr s \<Rightarrow>
          (let b = cells st (fst dst); i = snd dst
           in if i + length s + 1 \<le> length b
              then Inr (st\<lparr>cells := (cells st)
                     (fst dst := take i b @ map Some (s @ [NUL]) @ drop (i + length s + 1) b)\<rparr>)
              else Inl OutOfBounds))"

definition strtok :: "store \<Rightarrow> ptr option \<Rightarrow> string \<Rightarrow> fault + (ptr option \<times> store)" where
  "strtok st s delim =
     (case (case s of None \<Rightarrow> olds st | Some p \<Rightarrow> Some p) of
        None \<Rightarrow> Inl NullPointer
      | Some p \<Rightarrow>
          (case c_str st p of
             Inl f \<Rightarrow> Inl f
           | Inr str \<Rightarrow>
               (let r = fst p;
                    b = snd p + length (takeWhile (\<lambda>c. c \<in> set delim) str);
                    rest = dropWhile (\<lambda>c. c \<in> set delim) str;
                    e = b + length (takeWhile (\<lambda>c. c \<notin> set delim) rest)
                in if rest = [] then Inr (None, st\<lparr>olds := Some (r, b)\<rparr>)
                   else if dropWhile (\<lambda>c. c \<notin> set delim) rest = []
                   then Inr (Some (r, b), st\<lparr>olds := Some (r, e)\<rparr>)
                   else Inr (Some (r, b),
                          st\<lparr>cells := (cells st)(r := (cells st r)[e := Some NUL]),
                             olds := Some (r, e + 1)\<rparr>))))"

definition INT_MAX :: int where
  "INT_MAX = 2147483647"

definition INT_MIN :: int where
  "INT_MIN = - 2147483648"

type_synonym overflow = "int \<Rightarrow> int option"

definition digits_value :: "string \<Rightarrow> nat" where
  "digits_value s = foldl (\<lambda>v c. 10 * v + (of_char c - 48)) 0 s"

definition atoi :: "overflow \<Rightarrow> string \<Rightarrow> fault + int" where
  "atoi ovf s =
     (let s1 = dropWhile isspace s;
          neg = (s1 \<noteq> [] \<and> hd s1 = CHR ''-'');
          s2 = (if s1 \<noteq> [] \<and> (hd s1 = CHR ''-'' \<or> hd s1 = CHR ''+'') then tl s1 else s1);
          n = int (digits_value (takeWhile isdigit s2));
          v = (if neg then - n else n)
      in if INT_MIN \<le> v \<and> v \<le> INT_MAX then Inr v
         else (case ovf v of None \<Rightarrow> Inl Unrepresentable | Some k \<Rightarrow> Inr k))"

fun dec :: "nat \<Rightarrow> string" where
  "dec n = (if n < 10 then [char_of (48 + n)] else dec (n div 10) @ [char_of (48 + n mod 10)])"

declare dec.simps [simp del]

definition sprintf_d :: "nat \<Rightarrow> int \<Rightarrow> fault + string" where
  "sprintf_d cap n =
     (let r = (if n < 0 then CHR ''-'' # dec (nat (- n)) else dec (nat n))
      in if length r + 1 \<le> cap then Inr r else Inl OutOfBounds)"

text \<open>
  Behaviours of \<^verbatim>\<open>atoi\<close> beyond the range of \<^verbatim>\<open>int\<close>: the call is a fault
  (\<open>undefined_behaviour\<close>), it returns \<open>f v\<close> (\<open>returning f\<close>), or it returns \<open>f v\<close> for
  the values below a bound and is a fault from the bound on (\<open>defined_below b f\<close>).
  \<open>wrap32\<close> is the \<open>f\<close> of a library that keeps the low 32 bits.
\<close>

definition undefined_behaviour :: overflow where
  "undefined_behaviour v = None"

definition returning :: "(int \<Rightarrow> int) \<Rightarrow> overflow" where
  "returning f v = Some (f v)"

definition wrap32 :: "int \<Rightarrow> int" where
  "wrap32 v = (v + 2147483648) mod 4294967296 - 2147483648"

definition defined_below :: "int \<Rightarrow> (int \<Rightarrow> int) \<Rightarrow> overflow" where
  "defined_below b f v = (if v < b then Some (f v) else None)"

subsection \<open>The function\<close>

text \<open>
  \<open>first_pass\<close> is the \<^verbatim>\<open>for\<close> loop over \<^verbatim>\<open>ip[i]\<close>: its result \<open>None\<close> is the
  \<^verbatim>\<open>return 0\<close> inside the loop, \<open>Some dot_count\<close> the normal exit. \<open>second_pass\<close> is the
  \<^verbatim>\<open>while\<close> loop over the tokens, with the same convention for \<open>octet_count\<close>; the four
  library calls on \<^verbatim>\<open>token\<close> in its body read the same string, \<open>tok\<close>, since nothing is
  written between them. The counters stay below 16, so they are plain integers.

  \<^verbatim>\<open>int len = strlen(ip)\<close> narrows the length from \<^verbatim>\<open>size_t\<close> to \<^verbatim>\<open>int\<close>. The
  conversion keeps the low 32 bits (\<open>wrap32\<close>), as the compilers of the 64-bit platforms
  define it; it is exact for every string shorter than \<open>2^31\<close> bytes.
\<close>

function first_pass :: "store \<Rightarrow> ptr \<Rightarrow> int \<Rightarrow> int \<Rightarrow> int \<Rightarrow> fault + int option" where
  "first_pass st ip len i dot_count =
     (if i < len
      then (case load st (fst ip, snd ip + nat i) of
              Inl f \<Rightarrow> Inl f
            | Inr c \<Rightarrow>
                if c = CHR ''.'' then first_pass st ip len (i + 1) (dot_count + 1)
                else if \<not> isdigit c then Inr None
                else first_pass st ip len (i + 1) dot_count)
      else Inr (Some dot_count))"
  by pat_completeness auto
termination
  by (relation "measure (\<lambda>(st, ip, len, i, dot_count). nat (len - i))") auto

function second_pass ::
  "overflow \<Rightarrow> store \<Rightarrow> ptr option \<Rightarrow> int \<Rightarrow> fault + (int option \<times> store)" where
  "second_pass ovf st token octet_count =
     (case token of
        None \<Rightarrow> Inr (Some octet_count, st)
      | Some t \<Rightarrow>
          if \<not> octet_count < 4 then Inr (Some octet_count, st)
          else
            (case c_str st t of
               Inl f \<Rightarrow> Inl f
             | Inr tok \<Rightarrow>
                 if length tok = 0 then Inr (None, st)
                 else if length tok > 1 \<and> tok ! 0 = CHR ''0'' then Inr (None, st)
                 else
                   (case atoi ovf tok of
                      Inl f \<Rightarrow> Inl f
                    | Inr num \<Rightarrow>
                        if num < 0 \<or> num > 255 then Inr (None, st)
                        else
                          (case sprintf_d 4 num of
                             Inl f \<Rightarrow> Inl f
                           | Inr temp \<Rightarrow>
                               if temp \<noteq> tok then Inr (None, st)
                               else
                                 (case strtok st None ''.'' of
                                    Inl f \<Rightarrow> Inl f
                                  | Inr (token', st') \<Rightarrow>
                                      second_pass ovf st' token' (octet_count + 1))))))"
  by pat_completeness auto
termination
  by (relation "measure (\<lambda>(ovf, st, token, octet_count). nat (4 - octet_count))") auto

declare first_pass.simps [simp del] second_pass.simps [simp del]

definition validate_ip :: "overflow \<Rightarrow> store \<Rightarrow> ptr option \<Rightarrow> fault + (int \<times> store)" where
  "validate_ip ovf st0 ip =
     (case ip of
        None \<Rightarrow> Inr (0, st0)
      | Some p \<Rightarrow>
          (let st = st0\<lparr>cells := (cells st0)(IpCopy := replicate 16 None)\<rparr>
           in case strlen st p of
                Inl f \<Rightarrow> Inl f
              | Inr n \<Rightarrow>
                  (let len = wrap32 (int n)
                   in if len < 7 \<or> len > 15 then Inr (0, st)
                      else
                        (case strcpy st (IpCopy, 0) p of
                           Inl f \<Rightarrow> Inl f
                         | Inr st1 \<Rightarrow>
                             (case first_pass st1 p len 0 0 of
                                Inl f \<Rightarrow> Inl f
                              | Inr None \<Rightarrow> Inr (0, st1)
                              | Inr (Some dot_count) \<Rightarrow>
                                  if dot_count \<noteq> 3 then Inr (0, st1)
                                  else
                                    (case strtok st1 (Some (IpCopy, 0)) ''.'' of
                                       Inl f \<Rightarrow> Inl f
                                     | Inr (token, st2) \<Rightarrow>
                                         (case second_pass ovf st2 token 0 of
                                            Inl f \<Rightarrow> Inl f
                                          | Inr (None, st3) \<Rightarrow> Inr (0, st3)
                                          | Inr (Some octet_count, st3) \<Rightarrow>
                                              if octet_count \<noteq> 4 then Inr (0, st3)
                                              else Inr (1, st3))))))))"

text \<open>
  A call from outside: the candidate lies in the caller's array, terminator included, and
  the argument points at its first byte; \<open>None\<close> is the call with a null pointer. \<open>verdict\<close>
  is the value the call returns.
\<close>

definition candidate :: "string \<Rightarrow> store" where
  "candidate s =
     \<lparr>cells = (\<lambda>r. case r of Caller \<Rightarrow> map Some (s @ [NUL]) | IpCopy \<Rightarrow> []), olds = None\<rparr>"

definition verdict :: "overflow \<Rightarrow> string option \<Rightarrow> fault + int" where
  "verdict ovf arg =
     (case arg of
        None \<Rightarrow> map_sum id fst (validate_ip ovf (candidate []) None)
      | Some s \<Rightarrow> map_sum id fst (validate_ip ovf (candidate s) (Some (Caller, 0))))"

subsection \<open>The vocabulary of the specification\<close>

text \<open>
  \<open>segments\<close> splits a string at every dot and keeps empty pieces; \<open>join_dots\<close> puts the
  pieces back. \<open>dotted_quad a b c d\<close> is the text \<^verbatim>\<open>a.b.c.d\<close> with every number in canonical
  decimal form. \<open>segment_value\<close> is the number a segment of digits denotes, and
  \<open>canonical_octet\<close> says that a segment is the canonical numeral of a number up to 255.
\<close>

fun segments :: "string \<Rightarrow> string list" where
  "segments [] = [[]]"
| "segments (c # cs) =
     (if c = CHR ''.'' then [] # segments cs
      else (case segments cs of [] \<Rightarrow> [[c]] | t # ts \<Rightarrow> (c # t) # ts))"

fun join_dots :: "string list \<Rightarrow> string" where
  "join_dots [] = []"
| "join_dots [t] = t"
| "join_dots (t # u # ts) = t @ CHR ''.'' # join_dots (u # ts)"

definition dotted_quad :: "nat \<Rightarrow> nat \<Rightarrow> nat \<Rightarrow> nat \<Rightarrow> string" where
  "dotted_quad a b c d = dec a @ ''.'' @ dec b @ ''.'' @ dec c @ ''.'' @ dec d"

definition segment_value :: "string \<Rightarrow> nat option" where
  "segment_value t = (if t \<noteq> [] \<and> list_all isdigit t then Some (digits_value t) else None)"

definition canonical_octet :: "string \<Rightarrow> bool" where
  "canonical_octet t =
     (case segment_value t of None \<Rightarrow> False | Some v \<Rightarrow> v \<le> 255 \<and> dec v = t)"

subsection \<open>The two passes as functions of the string\<close>

text \<open>
  The same computation without memory, used in the proofs: \<open>octet_check\<close> is the body of
  the second loop on one token, \<open>octets\<close> the loop over a list of tokens, \<open>tokens\<close> what
  successive calls of \<^verbatim>\<open>strtok\<close> return, and \<open>gates\<close> the whole function. That
  \<open>validate_ip\<close> computes \<open>gates\<close> is proved below.
\<close>

definition octet_check :: "overflow \<Rightarrow> string \<Rightarrow> fault + bool" where
  "octet_check ovf tok =
     (if length tok = 0 then Inr False
      else if length tok > 1 \<and> tok ! 0 = CHR ''0'' then Inr False
      else
        (case atoi ovf tok of
           Inl f \<Rightarrow> Inl f
         | Inr num \<Rightarrow>
             if num < 0 \<or> num > 255 then Inr False
             else (case sprintf_d 4 num of Inl f \<Rightarrow> Inl f | Inr temp \<Rightarrow> Inr (temp = tok))))"

fun octets :: "overflow \<Rightarrow> string list \<Rightarrow> int \<Rightarrow> fault + int option" where
  "octets ovf [] k = Inr (Some k)"
| "octets ovf (tok # toks) k =
     (if \<not> k < 4 then Inr (Some k)
      else (case octet_check ovf tok of
              Inl f \<Rightarrow> Inl f
            | Inr False \<Rightarrow> Inr None
            | Inr True \<Rightarrow> octets ovf toks (k + 1)))"

definition tokens :: "string \<Rightarrow> string list" where
  "tokens s = filter (\<lambda>t. t \<noteq> []) (segments s)"

definition gates :: "overflow \<Rightarrow> string \<Rightarrow> fault + int" where
  "gates ovf s =
     (if length s < 7 \<or> length s > 15 then Inr 0
      else if \<not> list_all (\<lambda>c. c = CHR ''.'' \<or> isdigit c) s then Inr 0
      else if count_list s (CHR ''.'') \<noteq> 3 then Inr 0
      else (case octets ovf (tokens s) 0 of
              Inl f \<Rightarrow> Inl f
            | Inr None \<Rightarrow> Inr 0
            | Inr (Some k) \<Rightarrow> if k \<noteq> 4 then Inr 0 else Inr 1))"

section \<open>Strings in memory\<close>

lemma scan_string: "NUL \<notin> set s \<Longrightarrow> scan (map Some s @ Some NUL # rest) = Inr s"
  by (induction s) auto

lemma scan_InrD:
  "scan cs = Inr s \<Longrightarrow> NUL \<notin> set s \<and> (\<exists>rest. cs = map Some s @ Some NUL # rest)"
proof (induction cs arbitrary: s rule: scan.induct)
  case 1
  then show ?case by simp
next
  case (2 cs)
  then show ?case by simp
next
  case (3 c cs)
  show ?case
  proof (cases "c = NUL")
    case True
    with 3 show ?thesis by auto
  next
    case False
    with 3 show ?thesis by (auto split: sum.splits)
  qed
qed

lemma c_str_iff:
  "c_str st p = Inr s \<longleftrightarrow>
     NUL \<notin> set s \<and> (\<exists>rest. drop (snd p) (cells st (fst p)) = map Some s @ Some NUL # rest)"
  unfolding c_str_def using scan_string scan_InrD by metis

lemma drop_eq_appendD:
  "drop i b = xs @ ys \<Longrightarrow> b = take i b @ xs @ ys"
  by (metis append_take_drop_id)

section \<open>The tokenizer\<close>

lemma strtok_spec:
  assumes str: "c_str st p = Inr s"
    and src: "src = Some p \<or> (src = None \<and> olds st = Some p)"
  defines "r0 \<equiv> dropWhile (\<lambda>c. c = CHR ''.'') s"
  shows "r0 = [] \<Longrightarrow> \<exists>st'. strtok st src ''.'' = Inr (None, st') \<and> cells st' = cells st"
    and "r0 \<noteq> [] \<Longrightarrow>
      \<exists>t q st'. strtok st src ''.'' = Inr (Some t, st') \<and>
        c_str st' t = Inr (takeWhile (\<lambda>c. c \<noteq> CHR ''.'') r0) \<and>
        olds st' = Some q \<and>
        c_str st' q = Inr (tl (dropWhile (\<lambda>c. c \<noteq> CHR ''.'') r0)) \<and>
        fst t = fst p \<and> fst q = fst p \<and>
        (\<forall>r'. r' \<noteq> fst p \<longrightarrow> cells st' r' = cells st r')"
proof -
  obtain r i where p: "p = (r, i)" by (cases p)
  define d where "d = takeWhile (\<lambda>c. c = CHR ''.'') s"
  define tok where "tok = takeWhile (\<lambda>c. c \<noteq> CHR ''.'') r0"
  define after where "after = dropWhile (\<lambda>c. c \<noteq> CHR ''.'') r0"
  have s: "s = d @ tok @ after"
    by (simp add: d_def tok_def after_def r0_def)
  have r0: "r0 = tok @ after"
    by (simp add: tok_def after_def)
  from str obtain rest where nul: "NUL \<notin> set s"
    and cells: "drop i (cells st r) = map Some s @ Some NUL # rest"
    by (auto simp: c_str_iff p)
  have str': "c_str st (r, i) = Inr s" using str p by simp
  have f1: "takeWhile (\<lambda>c. c \<in> set ''.'') s = d"
    and f2: "dropWhile (\<lambda>c. c \<in> set ''.'') s = r0"
    and f3: "takeWhile (\<lambda>c. c \<notin> set ''.'') r0 = tok"
    and f4: "dropWhile (\<lambda>c. c \<notin> set ''.'') r0 = after"
    by (simp_all add: d_def r0_def tok_def after_def)
  have eff: "(case src of None \<Rightarrow> olds st | Some p \<Rightarrow> Some p) = Some p"
    using src by auto
  have dropb: "drop (i + length d) (cells st r) = map Some (tok @ after) @ Some NUL # rest"
  proof -
    have "drop (i + length d) (cells st r) = drop (length d) (drop i (cells st r))"
      by (simp add: add.commute)
    also have "\<dots> = map Some (tok @ after) @ Some NUL # rest"
      by (simp add: cells s)
    finally show ?thesis .
  qed
  {
    assume "r0 = []"
    then show "\<exists>st'. strtok st src ''.'' = Inr (None, st') \<and> cells st' = cells st"
      by (simp add: strtok_def eff str' p Let_def f1 f2 del: set_simps)
  }
  {
    assume ne: "r0 \<noteq> []"
    let ?b = "i + length d" and ?e = "i + length d + length tok"
    show "\<exists>t q st'. strtok st src ''.'' = Inr (Some t, st') \<and>
        c_str st' t = Inr (takeWhile (\<lambda>c. c \<noteq> CHR ''.'') r0) \<and>
        olds st' = Some q \<and>
        c_str st' q = Inr (tl (dropWhile (\<lambda>c. c \<noteq> CHR ''.'') r0)) \<and>
        fst t = fst p \<and> fst q = fst p \<and>
        (\<forall>r'. r' \<noteq> fst p \<longrightarrow> cells st' r' = cells st r')"
    proof (cases "after = []")
      case True
      have tk: "strtok st src ''.'' = Inr (Some (r, ?b), st\<lparr>olds := Some (r, ?e)\<rparr>)"
        using ne True
        by (simp add: strtok_def eff str' p Let_def f1 f2 f3 f4 del: set_simps)
      have c1: "c_str (st\<lparr>olds := Some (r, ?e)\<rparr>) (r, ?b) = Inr tok"
        using nul dropb True by (simp add: c_str_iff s)
      have "drop ?e (cells st r) = drop (length tok) (drop ?b (cells st r))"
        by (simp add: add.commute)
      also have "\<dots> = Some NUL # rest"
        by (simp add: dropb True)
      finally have c2: "c_str (st\<lparr>olds := Some (r, ?e)\<rparr>) (r, ?e) = Inr []"
        by (simp add: c_str_iff)
      show ?thesis
        using tk c1 c2 True by (auto simp: p tok_def [symmetric] after_def [symmetric])
    next
      case False
      then obtain c s' where after: "after = c # s'" by (cases after) auto
      let ?st' = "st\<lparr>cells := (cells st)(r := (cells st r)[?e := Some NUL]),
                     olds := Some (r, ?e + 1)\<rparr>"
      have tk: "strtok st src ''.'' = Inr (Some (r, ?b), ?st')"
        using ne False
        by (simp add: strtok_def eff str' p Let_def f1 f2 f3 f4 del: set_simps)
      have "drop ?b ((cells st r)[?e := Some NUL]) = (drop ?b (cells st r))[length tok := Some NUL]"
        by (simp add: drop_update_swap)
      also have "\<dots> = map Some tok @ Some NUL # map Some s' @ Some NUL # rest"
        by (simp add: dropb after list_update_append)
      finally have c1: "c_str ?st' (r, ?b) = Inr tok"
        using nul by (simp add: c_str_iff s)
      have "drop (?e + 1) ((cells st r)[?e := Some NUL]) = drop (?e + 1) (cells st r)"
        by simp
      also have "\<dots> = drop (length tok + 1) (drop ?b (cells st r))"
        by (simp add: add.commute add.left_commute)
      also have "\<dots> = map Some s' @ Some NUL # rest"
        by (simp add: dropb after)
      finally have c2: "c_str ?st' (r, ?e + 1) = Inr s'"
        using nul by (simp add: c_str_iff s after)
      show ?thesis
        using tk c1 c2 by (auto simp: p tok_def [symmetric] after_def [symmetric] after)
    qed
  }
qed

lemma segments_nonempty: "segments s \<noteq> []"
  by (induction s) (auto split: list.splits)

lemma segments_no_dot: "CHR ''.'' \<notin> set t \<Longrightarrow> segments t = [t]"
  by (induction t) auto

lemma segments_append_dot:
  "CHR ''.'' \<notin> set t \<Longrightarrow> segments (t @ CHR ''.'' # s) = t # segments s"
  by (induction t) auto

lemma tokens_skip_dots: "tokens (dropWhile (\<lambda>c. c = CHR ''.'') s) = tokens s"
  by (induction s) (auto simp: tokens_def)

lemma tokens_step:
  assumes "r0 = dropWhile (\<lambda>c. c = CHR ''.'') s"
  shows "r0 = [] \<Longrightarrow> tokens s = []"
    and "r0 \<noteq> [] \<Longrightarrow>
      takeWhile (\<lambda>c. c \<noteq> CHR ''.'') r0 \<noteq> [] \<and>
      tokens s = takeWhile (\<lambda>c. c \<noteq> CHR ''.'') r0 #
                 tokens (tl (dropWhile (\<lambda>c. c \<noteq> CHR ''.'') r0))"
proof -
  have ts: "tokens s = tokens r0"
    using assms tokens_skip_dots by simp
  {
    assume "r0 = []"
    then show "tokens s = []" using ts by (simp add: tokens_def)
  }
  {
    assume ne: "r0 \<noteq> []"
    define tok where "tok = takeWhile (\<lambda>c. c \<noteq> CHR ''.'') r0"
    define after where "after = dropWhile (\<lambda>c. c \<noteq> CHR ''.'') r0"
    have r0: "r0 = tok @ after" by (simp add: tok_def after_def)
    have nd: "CHR ''.'' \<notin> set tok"
      unfolding tok_def by (auto dest: set_takeWhileD)
    have "hd r0 \<noteq> CHR ''.''"
      using hd_dropWhile [of "\<lambda>c. c = CHR ''.''" s] ne assms by simp
    then have tne: "tok \<noteq> []"
      using ne unfolding tok_def by (cases r0) simp_all
    have "tokens r0 = tok # tokens (tl after)"
    proof (cases after)
      case Nil
      then show ?thesis using nd tne by (simp add: r0 tokens_def segments_no_dot)
    next
      case (Cons c s')
      then have "c = CHR ''.''"
        using hd_dropWhile [of "\<lambda>c. c \<noteq> CHR ''.''" r0] unfolding after_def by auto
      then show ?thesis
        using Cons nd tne by (simp add: r0 tokens_def segments_append_dot)
    qed
    then show "takeWhile (\<lambda>c. c \<noteq> CHR ''.'') r0 \<noteq> [] \<and>
      tokens s = takeWhile (\<lambda>c. c \<noteq> CHR ''.'') r0 #
                 tokens (tl (dropWhile (\<lambda>c. c \<noteq> CHR ''.'') r0))"
      using tne ts by (simp add: tok_def after_def)
  }
qed

lemma second_pass_unfold:
  assumes "c_str st t = Inr tok"
  shows "second_pass ovf st (Some t) k =
     (if \<not> k < 4 then Inr (Some k, st)
      else (case octet_check ovf tok of
              Inl f \<Rightarrow> Inl f
            | Inr False \<Rightarrow> Inr (None, st)
            | Inr True \<Rightarrow>
                (case strtok st None ''.'' of
                   Inl f \<Rightarrow> Inl f
                 | Inr (token', st') \<Rightarrow> second_pass ovf st' token' (k + 1))))"
  by (subst second_pass.simps) (simp add: assms octet_check_def split: sum.splits)

lemma second_pass_NULL: "second_pass ovf st None k = Inr (Some k, st)"
  by (subst second_pass.simps) simp

lemma length_tl_dropWhile: "xs \<noteq> [] \<Longrightarrow> length (tl (dropWhile P xs)) < length xs"
proof -
  assume ne: "xs \<noteq> []"
  have le: "length (dropWhile P xs) \<le> length xs" by (rule length_dropWhile_le)
  show ?thesis
  proof (cases "dropWhile P xs")
    case Nil
    then show ?thesis using ne by (simp del: dropWhile_eq_Nil_conv)
  next
    case (Cons y ys)
    then show ?thesis using le by simp
  qed
qed

lemma second_pass_octets:
  assumes "c_str st t = Inr tok" and "olds st = Some q" and "c_str st q = Inr rem"
    and "fst q = IpCopy"
  shows "\<exists>st'. cells st' Caller = cells st Caller \<and>
           second_pass ovf st (Some t) k =
             map_sum id (\<lambda>v. (v, st')) (octets ovf (tok # tokens rem) k)"
  using assms
proof (induction "length rem" arbitrary: rem st t tok q k rule: less_induct)
  case less
  define r0 where "r0 = dropWhile (\<lambda>c. c = CHR ''.'') rem"
  note unf = second_pass_unfold [OF less.prems(1), of ovf k]
  show ?case
  proof (cases "k < 4 \<and> octet_check ovf tok = Inr True")
    case False
    then consider "\<not> k < 4" | f where "k < 4" "octet_check ovf tok = Inl f"
      | "k < 4" "octet_check ovf tok = Inr False"
      by (cases "octet_check ovf tok") auto
    then show ?thesis
    proof cases
      case 1
      then have "second_pass ovf st (Some t) k = Inr (Some k, st)"
        and "octets ovf (tok # tokens rem) k = Inr (Some k)"
        by (simp_all add: unf)
      then show ?thesis by (intro exI [of _ st]) simp
    next
      case 2
      then have "second_pass ovf st (Some t) k = Inl f"
        and "octets ovf (tok # tokens rem) k = Inl f"
        by (simp_all add: unf)
      then show ?thesis by (intro exI [of _ st]) simp
    next
      case 3
      then have "second_pass ovf st (Some t) k = Inr (None, st)"
        and "octets ovf (tok # tokens rem) k = Inr None"
        by (simp_all add: unf)
      then show ?thesis by (intro exI [of _ st]) simp
    qed
  next
    case True
    then have step: "second_pass ovf st (Some t) k =
        (case strtok st None ''.'' of
           Inl f \<Rightarrow> Inl f
         | Inr (token', st') \<Rightarrow> second_pass ovf st' token' (k + 1))"
      and ostep: "octets ovf (tok # tokens rem) k = octets ovf (tokens rem) (k + 1)"
      by (simp_all add: unf)
    show ?thesis
    proof (cases "r0 = []")
      case empty: True
      from strtok_spec(1) [OF less.prems(3), of None] less.prems(2) empty
      obtain st' where tk: "strtok st None ''.'' = Inr (None, st')" and c: "cells st' = cells st"
        by (auto simp: r0_def)
      have "tokens rem = []"
        using tokens_step(1) [OF r0_def] empty by simp
      then have "octets ovf (tok # tokens rem) k = Inr (Some (k + 1))"
        using ostep by simp
      moreover have "second_pass ovf st (Some t) k = Inr (Some (k + 1), st')"
        using step tk by (simp add: second_pass_NULL)
      ultimately show ?thesis using c by simp
    next
      case nonempty: False
      from strtok_spec(2) [OF less.prems(3), of None] less.prems(2) nonempty
      obtain t' q' st' where tk: "strtok st None ''.'' = Inr (Some t', st')"
        and c1: "c_str st' t' = Inr (takeWhile (\<lambda>c. c \<noteq> CHR ''.'') r0)"
        and o: "olds st' = Some q'"
        and c2: "c_str st' q' = Inr (tl (dropWhile (\<lambda>c. c \<noteq> CHR ''.'') r0))"
        and fq: "fst q' = fst q"
        and fr: "\<forall>r'. r' \<noteq> fst q \<longrightarrow> cells st' r' = cells st r'"
        unfolding r0_def by blast
      let ?tok' = "takeWhile (\<lambda>c. c \<noteq> CHR ''.'') r0"
      let ?rem' = "tl (dropWhile (\<lambda>c. c \<noteq> CHR ''.'') r0)"
      have "length ?rem' < length r0"
        using nonempty by (rule length_tl_dropWhile)
      moreover have "length r0 \<le> length rem"
        unfolding r0_def by (rule length_dropWhile_le)
      ultimately have lt: "length ?rem' < length rem" by simp
      have fq': "fst q' = IpCopy" using fq less.prems(4) by simp
      from less.hyps [OF lt c1 o c2 fq', of "k + 1"]
      obtain st'' where cc: "cells st'' Caller = cells st' Caller"
        and sp: "second_pass ovf st' (Some t') (k + 1) =
                   map_sum id (\<lambda>v. (v, st'')) (octets ovf (?tok' # tokens ?rem') (k + 1))"
        by blast
      have tks: "tokens rem = ?tok' # tokens ?rem'"
        using tokens_step(2) [OF r0_def] nonempty by simp
      have "cells st'' Caller = cells st Caller"
        using cc fr less.prems(4) by simp
      moreover have "second_pass ovf st (Some t) k =
          map_sum id (\<lambda>v. (v, st'')) (octets ovf (tok # tokens rem) k)"
      proof -
        have "second_pass ovf st (Some t) k = second_pass ovf st' (Some t') (k + 1)"
          by (simp only: step tk sum.case prod.case)
        also note sp
        also have "octets ovf (?tok' # tokens ?rem') (k + 1) = octets ovf (tok # tokens rem) k"
          using ostep by (simp only: tks)
        finally show ?thesis .
      qed
      ultimately show ?thesis by blast
    qed
  qed
qed

section \<open>The function computes the gates\<close>

lemma load_c_str:
  assumes "c_str st (r, i0) = Inr s" and "j < length s"
  shows "load st (r, i0 + j) = Inr (s ! j)"
proof -
  from assms(1) obtain rest where d: "drop i0 (cells st r) = map Some s @ Some NUL # rest"
    by (auto simp: c_str_iff)
  have len: "length (drop i0 (cells st r)) = length s + 1 + length rest"
    by (simp add: d)
  then have lt: "i0 + j < length (cells st r)"
    using assms(2) by simp
  have "cells st r ! (i0 + j) = drop i0 (cells st r) ! j"
    using lt by simp
  also have "\<dots> = Some (s ! j)"
    using assms(2) by (simp add: d nth_append)
  finally show ?thesis
    using lt by (simp add: load_def)
qed

lemma first_pass_scan:
  assumes str: "c_str st (r, i0) = Inr s"
  shows "0 \<le> i \<Longrightarrow> i \<le> int (length s) \<Longrightarrow>
    first_pass st (r, i0) (int (length s)) i dc =
      Inr (if list_all (\<lambda>c. c = CHR ''.'' \<or> isdigit c) (drop (nat i) s)
           then Some (dc + int (count_list (drop (nat i) s) (CHR ''.''))) else None)"
proof (induction "nat (int (length s) - i)" arbitrary: i dc)
  case 0
  then have "\<not> i < int (length s)" and "drop (nat i) s = []" by simp_all
  then show ?case
    by (subst first_pass.simps) simp
next
  case (Suc n)
  then have lt: "i < int (length s)" and j: "nat i < length s" by simp_all
  have ld: "load st (r, i0 + nat i) = Inr (s ! nat i)"
    using load_c_str [OF str j] .
  have dr: "drop (nat i) s = s ! nat i # drop (nat (i + 1)) s"
    using j Suc.prems(1) by (simp add: Cons_nth_drop_Suc nat_add_distrib)
  have n: "n = nat (int (length s) - (i + 1))"
    using Suc.hyps(2) by simp
  have ih: "first_pass st (r, i0) (int (length s)) (i + 1) dc' =
      Inr (if list_all (\<lambda>c. c = CHR ''.'' \<or> isdigit c) (drop (nat (i + 1)) s)
           then Some (dc' + int (count_list (drop (nat (i + 1)) s) (CHR ''.''))) else None)"
    for dc'
    using Suc.hyps(1) [OF n] Suc.prems lt by simp
  show ?case
    by (subst first_pass.simps) (simp add: lt ld ih dr)
qed

lemma strcpy_fresh:
  assumes "c_str st src = Inr s" and "cells st IpCopy = replicate 16 None" and "length s \<le> 15"
  shows "strcpy st (IpCopy, 0) src =
    Inr (st\<lparr>cells := (cells st)
           (IpCopy := map Some (s @ [NUL]) @ replicate (15 - length s) None)\<rparr>)"
  using assms by (simp add: strcpy_def)

lemma length_fits_int: "n < 2 ^ 31 \<Longrightarrow> wrap32 (int n) = int n"
  by (simp add: wrap32_def)

lemma validate_ip_overrun:
  assumes mem: "cells st0 Caller = map Some s @ Some NUL # rest" and nul: "NUL \<notin> set s"
    and long: "15 < length s"
    and wr: "7 \<le> wrap32 (int (length s))" "wrap32 (int (length s)) \<le> 15"
  shows "validate_ip ovf st0 (Some (Caller, 0)) = Inl OutOfBounds"
proof -
  define st where "st = st0\<lparr>cells := (cells st0)(IpCopy := replicate 16 None)\<rparr>"
  have stc: "cells st Caller = cells st0 Caller" and sti: "cells st IpCopy = replicate 16 None"
    by (simp_all add: st_def)
  have str: "c_str st (Caller, 0) = Inr s"
    using mem nul by (simp add: c_str_iff stc)
  then have len: "strlen st (Caller, 0) = Inr (length s)"
    by (simp add: strlen_def)
  have cp: "strcpy st (IpCopy, 0) (Caller, 0) = Inl OutOfBounds"
    using long by (simp add: strcpy_def str sti)
  show ?thesis
    using wr by (simp add: validate_ip_def st_def [symmetric] len cp Let_def)
qed

lemma validate_ip_gates:
  assumes mem: "cells st0 Caller = map Some s @ Some NUL # rest" and nul: "NUL \<notin> set s"
    and fits: "length s \<le> 15 \<or> wrap32 (int (length s)) < 7 \<or> 15 < wrap32 (int (length s))"
  shows "\<exists>st'. cells st' Caller = cells st0 Caller \<and>
           validate_ip ovf st0 (Some (Caller, 0)) = map_sum id (\<lambda>v. (v, st')) (gates ovf s)"
proof -
  define st where "st = st0\<lparr>cells := (cells st0)(IpCopy := replicate 16 None)\<rparr>"
  have stc: "cells st Caller = cells st0 Caller" and sti: "cells st IpCopy = replicate 16 None"
    by (simp_all add: st_def)
  have str: "c_str st (Caller, 0) = Inr s"
    using mem nul by (simp add: c_str_iff stc)
  then have len: "strlen st (Caller, 0) = Inr (length s)"
    by (simp add: strlen_def)
  show ?thesis
  proof (cases "length s < 7 \<or> length s > 15")
    case True
    have "wrap32 (int (length s)) < 7 \<or> 15 < wrap32 (int (length s))"
    proof (cases "length s < 7")
      case True
      then show ?thesis by (simp add: length_fits_int)
    next
      case False
      then show ?thesis using True fits by simp
    qed
    then have "validate_ip ovf st0 (Some (Caller, 0)) = Inr (0, st)"
      by (auto simp: validate_ip_def st_def [symmetric] len Let_def)
    moreover have "gates ovf s = Inr 0"
      using True by (simp add: gates_def)
    ultimately show ?thesis using stc by (intro exI [of _ st]) simp
  next
    case False
    then have w: "wrap32 (int (length s)) = int (length s)"
      by (intro length_fits_int) simp
    define st1 where "st1 = st\<lparr>cells := (cells st)
           (IpCopy := map Some (s @ [NUL]) @ replicate (15 - length s) None)\<rparr>"
    have cp: "strcpy st (IpCopy, 0) (Caller, 0) = Inr st1"
      using strcpy_fresh [OF str sti] False by (simp add: st1_def)
    have st1c: "cells st1 Caller = cells st0 Caller"
      by (simp add: st1_def stc)
    have str1: "c_str st1 (Caller, 0) = Inr s"
      using mem nul by (simp add: c_str_iff st1c)
    have copy: "c_str st1 (IpCopy, 0) = Inr s"
      using nul by (simp add: c_str_iff st1_def)
    have fp: "first_pass st1 (Caller, 0) (int (length s)) 0 0 =
      Inr (if list_all (\<lambda>c. c = CHR ''.'' \<or> isdigit c) s
           then Some (int (count_list s (CHR ''.''))) else None)"
      using first_pass_scan [OF str1, of 0 0] by simp
    have v1: "validate_ip ovf st0 (Some (Caller, 0)) =
      (case first_pass st1 (Caller, 0) (int (length s)) 0 0 of
         Inl f \<Rightarrow> Inl f
       | Inr None \<Rightarrow> Inr (0, st1)
       | Inr (Some dot_count) \<Rightarrow>
           if dot_count \<noteq> 3 then Inr (0, st1)
           else
             (case strtok st1 (Some (IpCopy, 0)) ''.'' of
                Inl f \<Rightarrow> Inl f
              | Inr (token, st2) \<Rightarrow>
                  (case second_pass ovf st2 token 0 of
                     Inl f \<Rightarrow> Inl f
                   | Inr (None, st3) \<Rightarrow> Inr (0, st3)
                   | Inr (Some octet_count, st3) \<Rightarrow>
                       if octet_count \<noteq> 4 then Inr (0, st3) else Inr (1, st3))))"
      using False by (simp add: validate_ip_def st_def [symmetric] len w cp Let_def)
    show ?thesis
    proof (cases "list_all (\<lambda>c. c = CHR ''.'' \<or> isdigit c) s \<and> count_list s (CHR ''.'') = 3")
      case bad: False
      then have "validate_ip ovf st0 (Some (Caller, 0)) = Inr (0, st1)"
        by (auto simp: v1 fp)
      moreover have "gates ovf s = Inr 0"
        using False bad by (auto simp: gates_def)
      ultimately show ?thesis using st1c by (intro exI [of _ st1]) simp
    next
      case good: True
      then have v2: "validate_ip ovf st0 (Some (Caller, 0)) =
        (case strtok st1 (Some (IpCopy, 0)) ''.'' of
           Inl f \<Rightarrow> Inl f
         | Inr (token, st2) \<Rightarrow>
             (case second_pass ovf st2 token 0 of
                Inl f \<Rightarrow> Inl f
              | Inr (None, st3) \<Rightarrow> Inr (0, st3)
              | Inr (Some octet_count, st3) \<Rightarrow>
                  if octet_count \<noteq> 4 then Inr (0, st3) else Inr (1, st3)))"
        by (simp add: v1 fp)
      have g2: "gates ovf s =
        (case octets ovf (tokens s) 0 of
           Inl f \<Rightarrow> Inl f
         | Inr None \<Rightarrow> Inr 0
         | Inr (Some k) \<Rightarrow> if k \<noteq> 4 then Inr 0 else Inr 1)"
        using False good by (simp add: gates_def)
      define r0 where "r0 = dropWhile (\<lambda>c. c = CHR ''.'') s"
      show ?thesis
      proof (cases "r0 = []")
        case True
        from strtok_spec(1) [OF copy, of "Some (IpCopy, 0)"] True
        obtain st2 where tk: "strtok st1 (Some (IpCopy, 0)) ''.'' = Inr (None, st2)"
          and c: "cells st2 = cells st1"
          by (auto simp: r0_def)
        have "tokens s = []"
          using tokens_step(1) [OF r0_def] True by simp
        then have "gates ovf s = Inr 0"
          by (simp add: g2)
        moreover have "validate_ip ovf st0 (Some (Caller, 0)) = Inr (0, st2)"
          by (simp add: v2 tk second_pass_NULL)
        ultimately show ?thesis using c st1c by (intro exI [of _ st2]) simp
      next
        case False
        from strtok_spec(2) [OF copy, of "Some (IpCopy, 0)"] False
        obtain t q st2 where tk: "strtok st1 (Some (IpCopy, 0)) ''.'' = Inr (Some t, st2)"
          and c1: "c_str st2 t = Inr (takeWhile (\<lambda>c. c \<noteq> CHR ''.'') r0)"
          and o: "olds st2 = Some q"
          and c2: "c_str st2 q = Inr (tl (dropWhile (\<lambda>c. c \<noteq> CHR ''.'') r0))"
          and fq: "fst q = IpCopy"
          and fr: "\<forall>r'. r' \<noteq> IpCopy \<longrightarrow> cells st2 r' = cells st1 r'"
          unfolding r0_def by auto
        let ?tok = "takeWhile (\<lambda>c. c \<noteq> CHR ''.'') r0"
        let ?rem = "tl (dropWhile (\<lambda>c. c \<noteq> CHR ''.'') r0)"
        from second_pass_octets [OF c1 o c2 fq, of ovf 0]
        obtain st3 where c3: "cells st3 Caller = cells st2 Caller"
          and sp: "second_pass ovf st2 (Some t) 0 =
                     map_sum id (\<lambda>v. (v, st3)) (octets ovf (?tok # tokens ?rem) 0)"
          by blast
        have tks: "tokens s = ?tok # tokens ?rem"
          using tokens_step(2) [OF r0_def] False by simp
        have sp': "second_pass ovf st2 (Some t) 0 =
                     map_sum id (\<lambda>v. (v, st3)) (octets ovf (tokens s) 0)"
          using sp by (simp only: tks)
        have "validate_ip ovf st0 (Some (Caller, 0)) = map_sum id (\<lambda>v. (v, st3)) (gates ovf s)"
          by (cases "octets ovf (tokens s) 0") (auto simp: v2 g2 tk sp' split: option.splits)
        moreover have "cells st3 Caller = cells st0 Caller"
          using c3 fr st1c by simp
        ultimately show ?thesis by blast
      qed
    qed
  qed
qed

section \<open>Decimal numerals and the conversion\<close>

lemma of_char_digit: "d < 10 \<Longrightarrow> of_char (char_of (48 + d :: nat)) = (48 + d :: nat)"
  by simp

lemma isdigit_digit: "d < 10 \<Longrightarrow> isdigit (char_of (48 + d :: nat))"
  by (simp add: isdigit_def)

lemma digit_eq_zero: "d < 10 \<Longrightarrow> char_of (48 + d :: nat) = CHR ''0'' \<longleftrightarrow> d = 0"
proof -
  assume d: "d < 10"
  have "char_of (48 + d) = CHR ''0'' \<longleftrightarrow> (of_char (char_of (48 + d)) :: nat) = of_char CHR ''0''"
    by (simp only: of_char_eq_iff)
  also have "\<dots> \<longleftrightarrow> d = 0" using d by simp
  finally show ?thesis .
qed

lemma isdigit_not_dot: "isdigit c \<Longrightarrow> c \<noteq> CHR ''.''"
  by (auto simp: isdigit_def)

lemma isdigit_not_NUL: "isdigit c \<Longrightarrow> c \<noteq> NUL"
  by (auto simp: isdigit_def NUL_def)

lemma isdigit_not_space: "isdigit c \<Longrightarrow> \<not> isspace c"
  by (auto simp: isdigit_def isspace_def)

lemma isdigit_not_sign: "isdigit c \<Longrightarrow> c \<noteq> CHR ''-'' \<and> c \<noteq> CHR ''+''"
  by (auto simp: isdigit_def)

lemma dec_nonempty: "dec n \<noteq> []"
  by (subst dec.simps) simp

lemma dec_digits: "list_all isdigit (dec n)"
proof (induction n rule: dec.induct)
  case (1 n)
  show ?case
  proof (cases "n < 10")
    case True
    then show ?thesis by (subst dec.simps) (simp add: isdigit_digit)
  next
    case False
    then show ?thesis using 1 by (subst dec.simps) (simp add: isdigit_digit)
  qed
qed

lemma digits_value_snoc: "digits_value (xs @ [c]) = 10 * digits_value xs + (of_char c - 48)"
  by (simp add: digits_value_def)

lemma digits_value_dec: "digits_value (dec n) = n"
proof (induction n rule: dec.induct)
  case (1 n)
  show ?case
  proof (cases "n < 10")
    case True
    then show ?thesis by (subst dec.simps) (simp add: digits_value_def)
  next
    case False
    then have "digits_value (dec (n div 10)) = n div 10" using 1 by simp
    then show ?thesis using False by (subst dec.simps) (simp add: digits_value_snoc)
  qed
qed

lemma digits_value_bound: "list_all isdigit t \<Longrightarrow> digits_value t < 10 ^ length t"
proof (induction t rule: rev_induct)
  case Nil
  then show ?case by (simp add: digits_value_def)
next
  case (snoc c t)
  then have "digits_value t < 10 ^ length t" and "(of_char c :: nat) - 48 \<le> 9"
    by (auto simp: isdigit_def)
  then show ?case by (simp add: digits_value_snoc)
qed

lemma hd_dec: "0 < n \<Longrightarrow> hd (dec n) \<noteq> CHR ''0''"
proof (induction n rule: dec.induct)
  case (1 n)
  show ?case
  proof (cases "n < 10")
    case True
    then show ?thesis using "1.prems" by (subst dec.simps) (simp add: digit_eq_zero)
  next
    case False
    then have "hd (dec (n div 10)) \<noteq> CHR ''0''" using 1 by simp
    then show ?thesis using False by (subst dec.simps) (simp add: dec_nonempty)
  qed
qed

lemma length_dec_small: "n < 10 \<Longrightarrow> length (dec n) = 1"
  by (subst dec.simps) simp

lemma length_dec_le3: "n < 1000 \<Longrightarrow> length (dec n) \<le> 3"
proof -
  assume n: "n < 1000"
  have a: "length (dec (n div 10 div 10)) = 1"
    using n by (intro length_dec_small) simp
  have b: "length (dec (n div 10)) \<le> 2"
    using a by (subst dec.simps) simp
  show ?thesis
    using b by (subst dec.simps) simp
qed

lemma length_dec_pos: "1 \<le> length (dec n)"
  using dec_nonempty [of n] by (cases "dec n") simp_all

lemma atoi_digits:
  assumes "t \<noteq> []" and "list_all isdigit t"
  shows "atoi ovf t =
    (if int (digits_value t) \<le> INT_MAX then Inr (int (digits_value t))
     else (case ovf (int (digits_value t)) of None \<Rightarrow> Inl Unrepresentable | Some k \<Rightarrow> Inr k))"
proof -
  obtain c cs where t: "t = c # cs" using assms(1) by (cases t) auto
  then have c: "isdigit c" using assms(2) by simp
  have sp: "dropWhile isspace t = t"
    using c by (simp add: t isdigit_not_space)
  have tw: "takeWhile isdigit t = t"
    using assms(2) by (simp add: list_all_iff)
  have sg: "hd t \<noteq> CHR ''-''" "hd t \<noteq> CHR ''+''"
    using c isdigit_not_sign by (auto simp: t)
  show ?thesis
    using sg assms(1) by (simp add: atoi_def sp tw Let_def INT_MIN_def)
qed

lemma segment_value_dec: "segment_value (dec n) = Some n"
  by (simp add: segment_value_def dec_nonempty dec_digits digits_value_dec)

lemma canonical_octet_dec: "n \<le> 255 \<Longrightarrow> canonical_octet (dec n)"
  by (simp add: canonical_octet_def segment_value_dec)

lemma canonical_octetD:
  assumes "canonical_octet t"
  obtains n where "n \<le> 255" and "t = dec n"
  using assms by (auto simp: canonical_octet_def split: option.splits)

lemma canonical_octet_iff: "canonical_octet t \<longleftrightarrow> (\<exists>n\<le>255. t = dec n)"
  using canonical_octet_dec canonical_octetD by metis

lemma canonical_octet_shape:
  assumes "canonical_octet t"
  shows "t \<noteq> []" and "list_all isdigit t" and "1 \<le> length t" and "length t \<le> 3"
proof -
  from assms obtain n where n: "n \<le> 255" and t: "t = dec n" by (rule canonical_octetD)
  show "t \<noteq> []" by (simp add: t dec_nonempty)
  show "list_all isdigit t" by (simp add: t dec_digits)
  show "1 \<le> length t" unfolding t by (rule length_dec_pos)
  show "length t \<le> 3" using n by (simp add: t length_dec_le3)
qed

lemma sprintf_d_octet:
  "0 \<le> num \<Longrightarrow> num \<le> 255 \<Longrightarrow> sprintf_d 4 num = Inr (dec (nat num))"
proof -
  assume "0 \<le> num" and "num \<le> 255"
  then have "length (dec (nat num)) \<le> 3"
    by (intro length_dec_le3) simp
  then show ?thesis using \<open>0 \<le> num\<close> by (simp add: sprintf_d_def)
qed

lemma octet_check_canonical: "canonical_octet t \<Longrightarrow> octet_check ovf t = Inr True"
proof -
  assume "canonical_octet t"
  then obtain n where n: "n \<le> 255" and t: "t = dec n" by (rule canonical_octetD)
  have lead: "\<not> (length (dec n) > 1 \<and> dec n ! 0 = CHR ''0'')"
  proof
    assume a: "length (dec n) > 1 \<and> dec n ! 0 = CHR ''0''"
    then have "\<not> n < 10" using length_dec_small [of n] by auto
    then have "hd (dec n) \<noteq> CHR ''0''" by (intro hd_dec) simp
    then show False using a by (simp add: hd_conv_nth dec_nonempty)
  qed
  have at: "atoi ovf (dec n) = Inr (int n)"
    using n by (simp add: atoi_digits dec_nonempty dec_digits digits_value_dec INT_MAX_def)
  have sp: "sprintf_d 4 (int n) = Inr (dec n)"
    using n sprintf_d_octet [of "int n"] by simp
  show ?thesis
    using lead n by (simp add: octet_check_def t dec_nonempty at sp)
qed

lemma octet_check_TrueD: "octet_check ovf t = Inr True \<Longrightarrow> canonical_octet t"
proof -
  assume a: "octet_check ovf t = Inr True"
  have "\<exists>num. 0 \<le> num \<and> num \<le> 255 \<and> sprintf_d 4 num = Inr t"
    using a by (auto simp: octet_check_def not_less split: if_splits sum.splits)
  then obtain num where "0 \<le> num" and "num \<le> 255" and "sprintf_d 4 num = Inr t"
    by blast
  then have "t = dec (nat num)" and "nat num \<le> 255"
    by (simp_all add: sprintf_d_octet)
  then show ?thesis by (simp add: canonical_octet_dec)
qed

lemma atoi_returning: "\<exists>k. atoi (returning f) s = Inr k"
  by (simp add: atoi_def returning_def Let_def)

lemma octet_check_returning:
  "octet_check (returning f) t = Inr (canonical_octet t)"
proof (cases "canonical_octet t")
  case True
  then show ?thesis by (simp add: octet_check_canonical)
next
  case False
  obtain k where k: "atoi (returning f) t = Inr k"
    using atoi_returning by blast
  have "\<exists>b. octet_check (returning f) t = Inr b"
    by (auto simp: octet_check_def k sprintf_d_octet)
  then obtain b where b: "octet_check (returning f) t = Inr b" by blast
  then have "\<not> b" using False octet_check_TrueD by (cases b) auto
  then show ?thesis using b False by simp
qed

lemma octets_returning:
  "0 \<le> k \<Longrightarrow> k \<le> 4 \<Longrightarrow>
   octets (returning f) ts k =
     (if list_all canonical_octet (take (nat (4 - k)) ts)
      then Inr (Some (min 4 (k + int (length ts)))) else Inr None)"
proof (induction ts arbitrary: k)
  case Nil
  then show ?case by simp
next
  case (Cons t ts)
  show ?case
  proof (cases "k < 4")
    case False
    then have "k = 4" using Cons.prems by simp
    then show ?thesis by simp
  next
    case True
    then obtain m where m: "nat (4 - k) = Suc m" and m': "nat (4 - (k + 1)) = m"
      by (cases "nat (4 - k)") auto
    have ih: "octets (returning f) ts (k + 1) =
      (if list_all canonical_octet (take m ts)
       then Inr (Some (min 4 (k + 1 + int (length ts)))) else Inr None)"
      using Cons.IH [of "k + 1"] Cons.prems True m' by simp
    show ?thesis
    proof (cases "canonical_octet t")
      case c: True
      then show ?thesis
        using True by (simp add: octet_check_returning ih m add.assoc)
    next
      case c: False
      then show ?thesis
        using True by (simp add: octet_check_returning m)
    qed
  qed
qed

section \<open>Which strings are accepted\<close>

lemma length_segments: "length (segments s) = Suc (count_list s (CHR ''.''))"
proof (induction s)
  case Nil
  then show ?case by simp
next
  case (Cons c s)
  then show ?case
    by (cases "segments s") (auto simp: segments_nonempty)
qed

lemma sum_length_segments:
  "sum_list (map length (segments s)) + count_list s (CHR ''.'') = length s"
proof (induction s)
  case Nil
  then show ?case by simp
next
  case (Cons c s)
  then show ?case
    by (cases "segments s") (auto simp: segments_nonempty)
qed

lemma segment_no_dot: "t \<in> set (segments s) \<Longrightarrow> CHR ''.'' \<notin> set t"
proof (induction s arbitrary: t)
  case Nil
  then show ?case by simp
next
  case (Cons c s)
  then show ?case
    by (cases "segments s") (auto simp: segments_nonempty split: if_splits)
qed

lemma segment_subset: "t \<in> set (segments s) \<Longrightarrow> set t \<subseteq> set s"
proof (induction s arbitrary: t)
  case Nil
  then show ?case by simp
next
  case (Cons c s)
  show ?case
  proof (cases "segments s")
    case Nil
    then show ?thesis using segments_nonempty by blast
  next
    case seg: (Cons u us)
    have u: "set u \<subseteq> set s" and us: "\<And>v. v \<in> set us \<Longrightarrow> set v \<subseteq> set s"
      using Cons.IH seg by simp_all
    show ?thesis
    proof (cases "c = CHR ''.''")
      case True
      then have "t = [] \<or> t = u \<or> t \<in> set us" using Cons.prems seg by simp
      then show ?thesis using u us by auto
    next
      case False
      then have "t = c # u \<or> t \<in> set us" using Cons.prems seg by simp
      then show ?thesis using u us by auto
    qed
  qed
qed

lemma segment_char: "c \<in> set s \<Longrightarrow> c \<noteq> CHR ''.'' \<Longrightarrow> \<exists>t \<in> set (segments s). c \<in> set t"
proof (induction s)
  case Nil
  then show ?case by simp
next
  case (Cons x s)
  show ?case
  proof (cases "segments s")
    case Nil
    then show ?thesis using segments_nonempty by blast
  next
    case (Cons u us)
    show ?thesis
    proof (cases "c \<in> set s")
      case True
      then obtain t where "t \<in> set (segments s)" and "c \<in> set t"
        using Cons.IH Cons.prems(2) by blast
      then show ?thesis using Cons by (auto split: if_splits)
    next
      case False
      then have "c = x" using Cons.prems(1) by simp
      then show ?thesis using Cons Cons.prems(2) by simp
    qed
  qed
qed

lemma length4D: "length xs = 4 \<Longrightarrow> \<exists>a b c d. xs = [a, b, c, d]"
  by (auto simp: length_Suc_conv numeral_eq_Suc)

lemma segment_length_le:
  assumes "t \<in> set (segments s)"
  shows "length t + count_list s (CHR ''.'') \<le> length s"
proof -
  have "length t \<le> sum_list (map length (segments s))"
    using assms by (simp add: member_le_sum_list)
  then show ?thesis using sum_length_segments [of s] by simp
qed

lemma gates_accept:
  assumes four: "length (segments s) = 4" and can: "list_all canonical_octet (segments s)"
  shows "gates ovf s = Inr 1"
proof -
  from four obtain a b c d where seg: "segments s = [a, b, c, d]"
    using length4D by blast
  have dots: "count_list s (CHR ''.'') = 3"
    using four by (simp add: length_segments)
  have sh: "t \<in> {a, b, c, d} \<Longrightarrow> 1 \<le> length t \<and> length t \<le> 3 \<and> t \<noteq> [] \<and> list_all isdigit t" for t
    using can canonical_octet_shape [of t] by (auto simp: seg)
  have "length a + length b + length c + length d + 3 = length s"
    using sum_length_segments [of s] by (simp add: seg dots)
  then have len: "\<not> (length s < 7 \<or> length s > 15)"
    using sh [of a] sh [of b] sh [of c] sh [of d] by simp
  have chars: "list_all (\<lambda>c. c = CHR ''.'' \<or> isdigit c) s"
  proof -
    have "x = CHR ''.'' \<or> isdigit x" if xs: "x \<in> set s" for x
    proof (cases "x = CHR ''.''")
      case True
      then show ?thesis by simp
    next
      case False
      obtain t where "t \<in> set (segments s)" and "x \<in> set t"
        using segment_char [OF xs False] by blast
      then show ?thesis using sh [of t] by (auto simp: seg list_all_iff)
    qed
    then show ?thesis by (simp add: list_all_iff)
  qed
  have toks: "tokens s = [a, b, c, d]"
    using sh [of a] sh [of b] sh [of c] sh [of d] by (simp add: tokens_def seg)
  have chk: "octet_check ovf t = Inr True" if "t \<in> {a, b, c, d}" for t
    using that can by (intro octet_check_canonical) (auto simp: seg)
  have "octets ovf (tokens s) 0 = Inr (Some 4)"
    by (simp add: toks chk)
  then show ?thesis
    using len chars dots by (simp add: gates_def)
qed

lemma gates_returning:
  "gates (returning f) s =
     Inr (if length (segments s) = 4 \<and> list_all canonical_octet (segments s) then 1 else 0)"
proof (cases "length (segments s) = 4 \<and> list_all canonical_octet (segments s)")
  case True
  then show ?thesis by (simp add: gates_accept)
next
  case False
  have "gates (returning f) s = Inr 0"
  proof (cases "count_list s (CHR ''.'') = 3")
    case dots: False
    then show ?thesis by (simp add: gates_def)
  next
    case dots: True
    then have four: "length (segments s) = 4" by (simp add: length_segments)
    have oc: "octets (returning f) (tokens s) 0 =
        (if list_all canonical_octet (take 4 (tokens s))
         then Inr (Some (min 4 (int (length (tokens s))))) else Inr None)"
      using octets_returning [of 0 f "tokens s"] by simp
    have "\<not> (list_all canonical_octet (take 4 (tokens s)) \<and> 4 \<le> length (tokens s))"
    proof
      assume a: "list_all canonical_octet (take 4 (tokens s)) \<and> 4 \<le> length (tokens s)"
      then have "length (filter (\<lambda>t. t \<noteq> []) (segments s)) = length (segments s)"
        using four length_filter_le [of "\<lambda>t. t \<noteq> []" "segments s"] by (simp add: tokens_def)
      then have "tokens s = segments s"
        unfolding tokens_def by (metis filter_True length_filter_less less_irrefl)
      then show False using a False four by simp
    qed
    then have "octets (returning f) (tokens s) 0 \<noteq> Inr (Some 4)"
      by (auto simp: oc min_def split: if_splits)
    moreover have "\<exists>r. octets (returning f) (tokens s) 0 = Inr r"
      by (simp add: oc)
    ultimately show ?thesis
      by (auto simp: gates_def split: option.splits)
  qed
  then show ?thesis using False by simp
qed

text \<open>
  With a library whose \<^verbatim>\<open>atoi\<close> returns, the gates accept exactly the strings with four
  segments that are canonical octets.
\<close>

lemma gates_characterisation:
  "gates (returning f) s = Inr 1 \<longleftrightarrow>
     length (segments s) = 4 \<and> list_all canonical_octet (segments s)"
  by (simp add: gates_returning)

lemma candidate_cells: "cells (candidate s) Caller = map Some s @ Some NUL # []"
  by (simp add: candidate_def)

lemma verdict_narrowed:
  assumes nul: "NUL \<notin> set s"
  shows "verdict ovf (Some s) =
    (if 15 < length s \<and> 7 \<le> wrap32 (int (length s)) \<and> wrap32 (int (length s)) \<le> 15
     then Inl OutOfBounds else gates ovf s)"
proof (cases "15 < length s \<and> 7 \<le> wrap32 (int (length s)) \<and> wrap32 (int (length s)) \<le> 15")
  case True
  then have "validate_ip ovf (candidate s) (Some (Caller, 0)) = Inl OutOfBounds"
    using validate_ip_overrun [OF candidate_cells nul] by simp
  then show ?thesis using True by (simp add: verdict_def)
next
  case False
  then have "length s \<le> 15 \<or> wrap32 (int (length s)) < 7 \<or> 15 < wrap32 (int (length s))"
    by auto
  from validate_ip_gates [OF candidate_cells nul this, of ovf]
  obtain st' where "validate_ip ovf (candidate s) (Some (Caller, 0)) =
      map_sum id (\<lambda>v. (v, st')) (gates ovf s)"
    by blast
  then have "verdict ovf (Some s) = gates ovf s"
    by (cases "gates ovf s") (simp_all add: verdict_def)
  then show ?thesis using False by auto
qed

lemma verdict_gates:
  "NUL \<notin> set s \<Longrightarrow> length s < 2 ^ 31 \<Longrightarrow> verdict ovf (Some s) = gates ovf s"
  by (auto simp: verdict_narrowed length_fits_int)

lemma dec_no_dot: "CHR ''.'' \<notin> set (dec n)"
  using dec_digits [of n] isdigit_not_dot by (auto simp: list_all_iff)

lemma dec_no_NUL: "NUL \<notin> set (dec n)"
  using dec_digits [of n] isdigit_not_NUL by (auto simp: list_all_iff)

lemma segments_dotted_quad: "segments (dotted_quad a b c d) = [dec a, dec b, dec c, dec d]"
  by (simp add: dotted_quad_def segments_append_dot segments_no_dot dec_no_dot)

lemma NUL_dotted_quad: "NUL \<notin> set (dotted_quad a b c d)"
  by (simp add: dotted_quad_def dec_no_NUL) (simp add: NUL_def)

lemma candidate_prefix:
  "\<exists>rest. cells (candidate s) Caller =
     map Some (takeWhile (\<lambda>c. c \<noteq> NUL) s) @ Some NUL # rest"
proof -
  let ?p = "takeWhile (\<lambda>c. c \<noteq> NUL) s" and ?q = "dropWhile (\<lambda>c. c \<noteq> NUL) s"
  have "\<exists>rest. ?q @ [NUL] = NUL # rest"
  proof (cases ?q)
    case Nil
    show ?thesis unfolding Nil by simp
  next
    case (Cons x xs)
    then have "x = NUL"
      using hd_dropWhile [of "\<lambda>c. c \<noteq> NUL" s] by simp
    then show ?thesis using Cons by simp
  qed
  then obtain rest where q: "?q @ [NUL] = NUL # rest" by blast
  have "s @ [NUL] = ?p @ ?q @ [NUL]" by simp
  then have "map Some (s @ [NUL]) = map Some ?p @ Some NUL # map Some rest"
    by (simp only: q map_append list.map)
  then show ?thesis
    by (simp add: candidate_def)
qed

lemma verdict_prefix:
  assumes "length s < 2 ^ 31"
  shows "verdict ovf (Some s) = gates ovf (takeWhile (\<lambda>c. c \<noteq> NUL) s)"
proof -
  let ?p = "takeWhile (\<lambda>c. c \<noteq> NUL) s"
  obtain rest where mem: "cells (candidate s) Caller = map Some ?p @ Some NUL # rest"
    using candidate_prefix by blast
  have nul: "NUL \<notin> set ?p"
    by (auto dest: set_takeWhileD)
  have "length ?p \<le> length s" by (rule length_takeWhile_le)
  then have "length ?p < 2 ^ 31" using assms by simp
  then have "wrap32 (int (length ?p)) = int (length ?p)" by (rule length_fits_int)
  then have fits: "length ?p \<le> 15 \<or> wrap32 (int (length ?p)) < 7 \<or> 15 < wrap32 (int (length ?p))"
    by auto
  from validate_ip_gates [OF mem nul fits, of ovf]
  obtain st' where "validate_ip ovf (candidate s) (Some (Caller, 0)) =
      map_sum id (\<lambda>v. (v, st')) (gates ovf ?p)"
    by blast
  then show ?thesis
    by (cases "gates ovf ?p") (simp_all add: verdict_def)
qed

lemma verdict_NULL: "verdict ovf None = Inr 0"
  by (simp add: verdict_def validate_ip_def)

lemma noncanonical_reject:
  assumes "NUL \<notin> set s" and "length s < 2 ^ 31"
    and "t \<in> set (segments s)" and "\<not> canonical_octet t"
  shows "verdict (returning f) (Some s) = Inr 0"
  using assms by (auto simp: verdict_gates gates_returning list_all_iff)

lemma octets_cong:
  "(\<And>t. t \<in> set ts \<Longrightarrow> octet_check o1 t = octet_check o2 t) \<Longrightarrow>
   octets o1 ts k = octets o2 ts k"
  by (induction ts arbitrary: k) (auto split: sum.splits bool.splits)

lemma atoi_defined_below:
  assumes "t \<noteq> []" and "list_all isdigit t" and "length t \<le> 12"
  shows "atoi (defined_below (10 ^ 12) f) t = atoi (returning f) t"
proof -
  have "digits_value t < 10 ^ length t"
    using assms(2) by (rule digits_value_bound)
  also have "\<dots> \<le> 10 ^ 12"
    using assms(3) by (intro power_increasing) simp_all
  finally have "int (digits_value t) < 10 ^ 12"
    by (metis of_nat_less_iff of_nat_numeral of_nat_power)
  then show ?thesis
    using assms(1,2) by (simp add: atoi_digits defined_below_def returning_def)
qed

text \<open>
  Past the three gates, what \<^verbatim>\<open>strtok\<close> hands to the second loop are runs of one to twelve
  digits.
\<close>

lemma token_shape:
  assumes len: "length s \<le> 15"
    and chars: "list_all (\<lambda>c. c = CHR ''.'' \<or> isdigit c) s"
    and dots: "count_list s (CHR ''.'') = 3"
    and t: "t \<in> set (tokens s)"
  shows "t \<noteq> []" and "list_all isdigit t" and "length t \<le> 12"
    and "digits_value t < 10 ^ 12"
proof -
  from t have seg: "t \<in> set (segments s)"
    by (simp add: tokens_def)
  from t show "t \<noteq> []"
    by (simp add: tokens_def)
  have "length t + 3 \<le> length s"
    using segment_length_le [OF seg] dots by simp
  then show l12: "length t \<le> 12" using len by simp
  have "isdigit x" if x: "x \<in> set t" for x
  proof -
    have "x \<in> set s" using segment_subset [OF seg] x by blast
    moreover have "x \<noteq> CHR ''.''" using segment_no_dot [OF seg] x by blast
    ultimately show ?thesis using chars by (auto simp: list_all_iff)
  qed
  then show dig: "list_all isdigit t" by (simp add: list_all_iff)
  have "digits_value t < 10 ^ length t"
    using dig by (rule digits_value_bound)
  also have "\<dots> \<le> 10 ^ 12"
    using l12 by (intro power_increasing) simp_all
  finally show "digits_value t < 10 ^ 12" .
qed

lemma gates_defined_below: "gates (defined_below (10 ^ 12) f) s = gates (returning f) s"
proof (cases "\<not> (length s < 7 \<or> length s > 15) \<and> list_all (\<lambda>c. c = CHR ''.'' \<or> isdigit c) s
    \<and> count_list s (CHR ''.'') = 3")
  case False
  then show ?thesis by (auto simp: gates_def)
next
  case True
  then have len: "length s \<le> 15"
    and chars: "list_all (\<lambda>c. c = CHR ''.'' \<or> isdigit c) s"
    and dots: "count_list s (CHR ''.'') = 3"
    by simp_all
  have "octet_check (defined_below (10 ^ 12) f) t = octet_check (returning f) t"
    if t: "t \<in> set (tokens s)" for t
  proof -
    note sh = token_shape(1-3) [OF len chars dots t]
    show ?thesis
      by (simp only: octet_check_def atoi_defined_below [OF sh])
  qed
  then have "octets (defined_below (10 ^ 12) f) (tokens s) 0 = octets (returning f) (tokens s) 0"
    by (rule octets_cong)
  then show ?thesis by (simp add: gates_def)
qed

lemma digit_chars:
  "char_of (48 :: nat) = CHR ''0''" "char_of (49 :: nat) = CHR ''1''"
  "char_of (50 :: nat) = CHR ''2''" "char_of (51 :: nat) = CHR ''3''"
  "char_of (52 :: nat) = CHR ''4''" "char_of (53 :: nat) = CHR ''5''"
  "char_of (54 :: nat) = CHR ''6''" "char_of (55 :: nat) = CHR ''7''"
  "char_of (56 :: nat) = CHR ''8''" "char_of (57 :: nat) = CHR ''9''"
  by (simp_all add: char_of_def bit_Suc_0_iff)

lemma overflow_reaches_atoi:
  "verdict undefined_behaviour (Some ''2147483648.1.1.'') = Inl Unrepresentable"
  by (simp add: verdict_gates NUL_def gates_def tokens_def isdigit_def isspace_def octet_check_def
      atoi_def digits_value_def undefined_behaviour_def INT_MAX_def INT_MIN_def Let_def)

lemma join_dots_segments: "join_dots (segments s) = s"
proof (induction s)
  case Nil
  then show ?case by simp
next
  case (Cons c s)
  show ?case
  proof (cases "segments s")
    case Nil
    then show ?thesis using segments_nonempty by blast
  next
    case seg: (Cons u us)
    then show ?thesis using Cons.IH by (cases us) auto
  qed
qed

lemma segments_examples:
  "segments ''192.168.1.1'' = [''192'', ''168'', ''1'', ''1'']"
  "segments ''192..1.1'' = [''192'', [], ''1'', ''1'']"
  "segments ''.1.1.1'' = [[], ''1'', ''1'', ''1'']"
  "segments ''1.1.1.'' = [''1'', ''1'', ''1'', []]"
  by simp_all

lemmas run_simps = validate_ip_def strlen_def strcpy_def strtok_def c_str_def load_def
  candidate_def first_pass.simps second_pass.simps atoi_def sprintf_d_def digits_value_def
  isdigit_def isspace_def NUL_def INT_MAX_def INT_MIN_def Let_def dec.simps digit_chars
  returning_def wrap32_def

lemma tokenizing_rewrites_the_copy:
  "validate_ip (returning wrap32) (candidate ''1.2.3.4'') (Some (Caller, 0)) =
     Inr (1, \<lparr>cells = (\<lambda>r. case r of
                  Caller \<Rightarrow> map Some (''1.2.3.4'' @ [NUL])
                | IpCopy \<Rightarrow> map Some [CHR ''1'', NUL, CHR ''2'', NUL, CHR ''3'', NUL, CHR ''4'', NUL]
                            @ replicate 8 None),
              olds = Some (IpCopy, 7)\<rparr>)"
  by (simp add: run_simps fun_eq_iff split: region.splits)

lemma bound_is_tight:
  "verdict (defined_below (10 ^ 12 - 1) f) (Some ''999999999999...'') = Inl Unrepresentable"
  by (simp add: verdict_gates NUL_def gates_def tokens_def isdigit_def isspace_def octet_check_def
      atoi_def digits_value_def defined_below_def INT_MAX_def INT_MIN_def Let_def)

lemma specification_table:
  "verdict (returning f) (Some ''0.0.0.0'') = Inr 1"
  "verdict (returning f) (Some ''255.255.255.255'') = Inr 1"
  "verdict (returning f) (Some ''192.168.1.1'') = Inr 1"
  "verdict (returning f) (Some ''10.0.0.1'') = Inr 1"
  "verdict (returning f) (Some ''192.168.01.1'') = Inr 0"
  "verdict (returning f) (Some ''256.1.1.1'') = Inr 0"
  "verdict (returning f) (Some '' 1.1.1.1'') = Inr 0"
  "verdict (returning f) (Some ''1.1.1.1.'') = Inr 0"
  by (simp_all add: verdict_gates NUL_def gates_returning canonical_octet_def segment_value_def
      isdigit_def digits_value_def dec.simps digit_chars)

lemma tokenizer_skips_empty_segments:
  "segments ''192..1.1'' = [''192'', [], ''1'', ''1'']"
  "tokens ''192..1.1'' = [''192'', ''1'', ''1'']"
  "octets (returning f) (tokens ''192..1.1'') 0 = Inr (Some 3)"
  by (simp_all add: tokens_def octet_check_returning canonical_octet_def segment_value_def
      isdigit_def digits_value_def dec.simps digit_chars)

lemma round_trip_catches_wraparound:
  "atoi (returning wrap32) ''4294967297'' = Inr 1"
  "sprintf_d 4 1 = Inr ''1''"
  "octet_check (returning wrap32) ''4294967297'' = Inr False"
  by (simp_all add: octet_check_def atoi_def sprintf_d_def digits_value_def isdigit_def
      isspace_def INT_MAX_def INT_MIN_def Let_def returning_def wrap32_def dec.simps digit_chars)

section \<open>Strings too long for the length to fit\<close>

text \<open>
  The narrowing of the length is exact below \<open>2^31\<close> bytes, and there the function is
  total: it returns 0 or 1, and 0 outside the lengths 7 to 15.
\<close>

lemma verdict_total_below:
  assumes "length s < 2 ^ 31"
  shows "verdict (returning f) (Some s) = Inr 0 \<or> verdict (returning f) (Some s) = Inr 1"
  using assms by (simp add: verdict_prefix gates_returning)

lemma verdict_empty: "verdict ovf (Some []) = Inr 0"
  by (simp add: verdict_prefix gates_def)

lemma length_gate_below:
  assumes "NUL \<notin> set s" and "length s < 2 ^ 31" and "length s < 7 \<or> 15 < length s"
  shows "verdict ovf (Some s) = Inr 0"
  using assms by (auto simp: verdict_gates gates_def)

text \<open>
  Beyond, the low 32 bits of the length can lie between 7 and 15. Then the length gate lets
  the string through and \<^verbatim>\<open>strcpy\<close> writes past the 16 bytes of the copy.
\<close>

lemma verdict_overrun:
  assumes "c \<noteq> NUL" and "15 < n" and "7 \<le> wrap32 (int n)" and "wrap32 (int n) \<le> 15"
  shows "verdict ovf (Some (replicate n c)) = Inl OutOfBounds"
proof -
  have "NUL \<notin> set (replicate n c)"
    using assms(1) by auto
  then show ?thesis
    using assms(2-4) by (simp add: verdict_narrowed)
qed

section \<open>The claims of the specification\<close>

text \<open>
  In the statements below a candidate is a list of bytes \<open>s\<close>. A C string cannot contain
  its own terminator, so the statements that speak of the characters of the candidate
  assume \<open>NUL \<notin> set s\<close>; they also assume \<open>length s < 2 ^ 31\<close>, the strings whose length
  an \<^verbatim>\<open>int\<close> holds. Where a statement holds whatever \<^verbatim>\<open>atoi\<close> does beyond the range
  of \<^verbatim>\<open>int\<close>, it is stated for every \<open>ovf\<close>; where it needs \<^verbatim>\<open>atoi\<close> to return, it is
  stated for \<open>returning f\<close> with \<open>f\<close> arbitrary.
\<close>

text \<open>
  Claim C1. For every four integers a, b, c, d in the range 0 to 255, written in canonical
  decimal form (no leading zeros, 0 written as the single character 0) and joined with
  single dots, \<open>validate_ip\<close> returns 1.
\<close>

theorem canonical_quad_accepted:
  assumes "a \<le> 255" and "b \<le> 255" and "c \<le> 255" and "d \<le> 255"
  shows "verdict ovf (Some (dotted_quad a b c d)) = Inr 1"
proof -
  have "segments (dotted_quad a b c d) = [dec a, dec b, dec c, dec d]"
    by (rule segments_dotted_quad)
  moreover have "canonical_octet (dec a)" and "canonical_octet (dec b)"
    and "canonical_octet (dec c)" and "canonical_octet (dec d)"
    using assms by (simp_all add: canonical_octet_dec)
  ultimately have "gates ovf (dotted_quad a b c d) = Inr 1"
    by (intro gates_accept) simp_all
  moreover have l3: "length (dec n) \<le> 3" if "n \<le> 255" for n
    using that by (intro length_dec_le3) simp
  have "length (dotted_quad a b c d) \<le> 15"
    using l3 [OF assms(1)] l3 [OF assms(2)] l3 [OF assms(3)] l3 [OF assms(4)]
    by (simp add: dotted_quad_def)
  then have "length (dotted_quad a b c d) < 2 ^ 31"
    by simp
  ultimately show ?thesis
    by (simp add: verdict_gates NUL_dotted_quad)
qed

theorem canonical_quad_accepted_witness:
  "dotted_quad 192 168 1 1 = ''192.168.1.1'' \<and>
   verdict undefined_behaviour (Some ''192.168.1.1'') = Inr 1"
  using canonical_quad_accepted [of 192 168 1 1 undefined_behaviour]
  by (simp add: dotted_quad_def dec.simps digit_chars)

text \<open>
  Claim C2. For every input (the empty string, strings of any length, strings made of dots
  only, a null pointer) \<open>validate_ip\<close> terminates and returns 0 or 1 without a fault; a
  null pointer and the empty string yield 0. The function does this for the null pointer
  and for every string shorter than \<open>2^31\<close> bytes (\<open>verdict_NULL\<close>, \<open>verdict_empty\<close>,
  \<open>verdict_total_below\<close>). It does not for strings of any length: on a string of
  \<open>2^32 + 7\<close> bytes \<^verbatim>\<open>len\<close> is 7, the length gate is passed and \<^verbatim>\<open>strcpy\<close> overruns
  \<^verbatim>\<open>ip_copy\<close>.
\<close>

theorem long_string_overruns_copy:
  "verdict ovf (Some (replicate (2 ^ 32 + 7) (CHR ''1''))) = Inl OutOfBounds"
  by (rule verdict_overrun) (simp_all add: NUL_def wrap32_def)

text \<open>
  Claim C3. For every input string of fewer than 7 or more than 15 characters,
  \<open>validate_ip\<close> returns 0, whatever the string contains. The function does this for
  every string shorter than \<open>2^31\<close> bytes (\<open>length_gate_below\<close>). It does not for every
  length: the gate compares the narrowed length, so a string of \<open>2^32 + 15\<close> dots has
  more than 15 characters, passes the gate with \<^verbatim>\<open>len\<close> 15 and does not return 0.
\<close>

theorem length_gate_missed:
  "wrap32 (int (2 ^ 32 + 15)) = 15 \<and>
   verdict ovf (Some (replicate (2 ^ 32 + 15) (CHR ''.''))) = Inl OutOfBounds"
proof
  show "wrap32 (int (2 ^ 32 + 15)) = 15"
    by (simp add: wrap32_def)
  show "verdict ovf (Some (replicate (2 ^ 32 + 15) (CHR ''.''))) = Inl OutOfBounds"
    by (rule verdict_overrun) (simp_all add: NUL_def wrap32_def)
qed

text \<open>
  Claim C4. For every input in which some dot-separated segment is longer than one
  character and begins with the character 0, \<open>validate_ip\<close> returns 0; a segment that is
  the single character 0 is not rejected by this rule.
\<close>

theorem leading_zero_rejected:
  assumes "NUL \<notin> set s" and "length s < 2 ^ 31"
  shows "(t \<in> set (segments s) \<and> 1 < length t \<and> hd t = CHR ''0'' \<longrightarrow>
            verdict (returning f) (Some s) = Inr 0) \<and>
         verdict ovf (Some ''0.0.0.0'') = Inr 1"
proof -
  have "verdict (returning f) (Some s) = Inr 0"
    if seg: "t \<in> set (segments s)" and len: "1 < length t" and z: "hd t = CHR ''0''"
  proof -
    have "\<not> canonical_octet t"
    proof
      assume "canonical_octet t"
      then obtain n where n: "n \<le> 255" and t: "t = dec n" by (rule canonical_octetD)
      have "\<not> n < 10" using len length_dec_small [of n] by (auto simp: t)
      then have "hd (dec n) \<noteq> CHR ''0''" by (intro hd_dec) simp
      then show False using z by (simp add: t)
    qed
    then show ?thesis using assms seg by (rule noncanonical_reject [rotated 3])
  qed
  moreover have "verdict ovf (Some ''0.0.0.0'') = Inr 1"
  proof -
    have "canonical_octet ''0''"
      by (simp add: canonical_octet_def segment_value_def isdigit_def digits_value_def
          dec.simps digit_chars)
    then have "gates ovf ''0.0.0.0'' = Inr 1"
      by (intro gates_accept) simp_all
    then show ?thesis by (simp add: verdict_gates NUL_def)
  qed
  ultimately show ?thesis by blast
qed

theorem leading_zero_rejected_witness:
  "verdict (returning wrap32) (Some ''192.168.01.1'') = Inr 0 \<and>
   verdict (returning wrap32) (Some ''0.0.0.0'') = Inr 1"
  using leading_zero_rejected [of "''192.168.01.1''" "''01''" wrap32 "returning wrap32"]
  by (simp add: NUL_def)

text \<open>
  Claim C5. For every input in which some dot-separated segment, read as an unsigned
  decimal number, is greater than 255, \<open>validate_ip\<close> returns 0. This includes numerals so
  large that the conversion to \<^verbatim>\<open>int\<close> wraps around to a value between 0 and 255: the
  comparison of the printed number with the token rejects them. The statement holds for
  every result \<open>f\<close> of the conversion beyond the range of \<^verbatim>\<open>int\<close>; in the instance after
  it, the conversion wraps \<open>4294967297\<close> to 1.
\<close>

theorem octet_above_255_rejected:
  assumes "NUL \<notin> set s" and "length s < 2 ^ 31" and "t \<in> set (segments s)"
    and "segment_value t = Some v" and "255 < v"
  shows "verdict (returning f) (Some s) = Inr 0"
proof -
  have "\<not> canonical_octet t"
    using assms(4,5) by (simp add: canonical_octet_def)
  with assms(1-3) show ?thesis by (rule noncanonical_reject)
qed

theorem octet_above_255_rejected_witness:
  "wrap32 4294967297 = 1 \<and> verdict (returning wrap32) (Some ''4294967297.1.1.'') = Inr 0"
  using octet_above_255_rejected [of "''4294967297.1.1.''" "''4294967297''" 4294967297 wrap32]
  by (simp add: NUL_def segment_value_def isdigit_def digits_value_def wrap32_def)

text \<open>
  Claim C6. For every input with an empty segment (from a leading dot, a trailing dot or
  two dots in a row) \<open>validate_ip\<close> returns 0, and so it does whenever the split does not
  give exactly four segments. The tokenizer does skip empty segments, but with three dots
  in the string it then finds fewer than four tokens.
\<close>

theorem empty_segment_rejected:
  assumes "NUL \<notin> set s" and "length s < 2 ^ 31"
    and "[] \<in> set (segments s) \<or> length (segments s) \<noteq> 4"
  shows "verdict (returning f) (Some s) = Inr 0"
proof -
  have "\<not> canonical_octet []"
    by (simp add: canonical_octet_def segment_value_def)
  then show ?thesis
    using assms by (auto simp: verdict_gates gates_returning list_all_iff)
qed

theorem empty_segment_rejected_witness:
  "verdict (returning wrap32) (Some ''192..1.1'') = Inr 0 \<and>
   verdict (returning wrap32) (Some ''.1.1.1.1'') = Inr 0 \<and>
   verdict (returning wrap32) (Some ''1.1.1.1.'') = Inr 0"
  using empty_segment_rejected [of "''192..1.1''" wrap32]
    empty_segment_rejected [of "''.1.1.1.1''" wrap32]
    empty_segment_rejected [of "''1.1.1.1.''" wrap32]
  by (simp add: NUL_def)

text \<open>
  Claim C7. For every input with a character that is neither an ASCII decimal digit nor a
  dot (a letter, a sign, white space, a byte above 127) \<open>validate_ip\<close> returns 0.
\<close>

theorem foreign_character_rejected:
  assumes "NUL \<notin> set s" and "length s < 2 ^ 31"
    and "c \<in> set s" and "\<not> isdigit c" and "c \<noteq> CHR ''.''"
  shows "verdict ovf (Some s) = Inr 0"
  using assms by (auto simp: verdict_gates gates_def list_all_iff)

theorem foreign_character_rejected_witness:
  "verdict undefined_behaviour (Some ''1.2.3.a'') = Inr 0 \<and>
   verdict undefined_behaviour (Some '' 1.1.1.1'') = Inr 0 \<and>
   verdict undefined_behaviour (Some ''-1.1.1.1'') = Inr 0 \<and>
   verdict undefined_behaviour (Some [CHR ''1'', CHR ''.'', CHR ''1'', CHR ''.'', CHR ''1'',
     CHR ''.'', CHR 0xC3, CHR 0xA9]) = Inr 0"
  using foreign_character_rejected [of "''1.2.3.a''" "CHR ''a''" undefined_behaviour]
    foreign_character_rejected [of "'' 1.1.1.1''" "CHR '' ''" undefined_behaviour]
    foreign_character_rejected [of "''-1.1.1.1''" "CHR ''-''" undefined_behaviour]
    foreign_character_rejected [of "[CHR ''1'', CHR ''.'', CHR ''1'', CHR ''.'', CHR ''1'',
     CHR ''.'', CHR 0xC3, CHR 0xA9]" "CHR 0xC3" undefined_behaviour]
  by (simp add: NUL_def isdigit_def)

text \<open>
  Claim C8. For every input whose number of dots is not exactly 3, \<open>validate_ip\<close>
  returns 0.
\<close>

theorem dot_count_gate:
  assumes "NUL \<notin> set s" and "length s < 2 ^ 31" and "count_list s (CHR ''.'') \<noteq> 3"
  shows "verdict ovf (Some s) = Inr 0"
  using assms by (auto simp: verdict_gates gates_def)

theorem dot_count_gate_witness:
  "verdict undefined_behaviour (Some ''192.168.1'') = Inr 0 \<and>
   verdict undefined_behaviour (Some ''192.168.1.1.1'') = Inr 0"
  using dot_count_gate [of "''192.168.1''" undefined_behaviour]
    dot_count_gate [of "''192.168.1.1.1''" undefined_behaviour]
  by (simp add: NUL_def)

text \<open>
  Claim C9. \<open>validate_ip\<close> does not modify the caller's string: the call returns, and the
  bytes of the caller's array are then what they were. The tokenizer writes terminators, but
  into the private copy (the lemma \<open>tokenizing_rewrites_the_copy\<close> above shows them there).
  A call with a null pointer leaves all memory as it was.
\<close>

theorem caller_string_unchanged:
  assumes "length s < 2 ^ 31"
  shows "(\<exists>v st'. validate_ip (returning f) (candidate s) (Some (Caller, 0)) = Inr (v, st') \<and>
      cells st' Caller = cells (candidate s) Caller \<and>
      cells st' Caller = map Some (s @ [NUL])) \<and>
   validate_ip ovf st None = Inr (0, st)"
proof -
  obtain rest where mem: "cells (candidate s) Caller =
      map Some (takeWhile (\<lambda>c. c \<noteq> NUL) s) @ Some NUL # rest"
    using candidate_prefix by blast
  have nul: "NUL \<notin> set (takeWhile (\<lambda>c. c \<noteq> NUL) s)"
    by (auto dest: set_takeWhileD)
  have "length (takeWhile (\<lambda>c. c \<noteq> NUL) s) \<le> length s"
    by (rule length_takeWhile_le)
  then have "length (takeWhile (\<lambda>c. c \<noteq> NUL) s) < 2 ^ 31"
    using assms by simp
  then have "wrap32 (int (length (takeWhile (\<lambda>c. c \<noteq> NUL) s))) =
      int (length (takeWhile (\<lambda>c. c \<noteq> NUL) s))"
    by (rule length_fits_int)
  then have fits: "length (takeWhile (\<lambda>c. c \<noteq> NUL) s) \<le> 15 \<or>
      wrap32 (int (length (takeWhile (\<lambda>c. c \<noteq> NUL) s))) < 7 \<or>
      15 < wrap32 (int (length (takeWhile (\<lambda>c. c \<noteq> NUL) s)))"
    by auto
  from validate_ip_gates [OF mem nul fits, of "returning f"]
  obtain st' where c: "cells st' Caller = cells (candidate s) Caller"
    and v: "validate_ip (returning f) (candidate s) (Some (Caller, 0)) =
      map_sum id (\<lambda>v. (v, st')) (gates (returning f) (takeWhile (\<lambda>c. c \<noteq> NUL) s))"
    by blast
  have "cells st' Caller = map Some (s @ [NUL])"
    using c by (simp add: candidate_def)
  moreover have "\<exists>v. validate_ip (returning f) (candidate s) (Some (Caller, 0)) = Inr (v, st')"
    using v by (simp add: gates_returning)
  ultimately have "\<exists>v st'. validate_ip (returning f) (candidate s) (Some (Caller, 0)) = Inr (v, st') \<and>
      cells st' Caller = cells (candidate s) Caller \<and>
      cells st' Caller = map Some (s @ [NUL])"
    using c by blast
  then show ?thesis by (simp add: validate_ip_def)
qed

theorem caller_string_unchanged_witness:
  "(\<exists>v st'. validate_ip (returning wrap32) (candidate ''1.2.3.4'') (Some (Caller, 0)) =
        Inr (v, st') \<and>
      cells st' Caller = cells (candidate ''1.2.3.4'') Caller \<and>
      cells st' Caller = map Some (''1.2.3.4'' @ [NUL])) \<and>
   validate_ip undefined_behaviour (candidate ''1.2.3.4'') None =
     Inr (0, candidate ''1.2.3.4'')"
  by (rule caller_string_unchanged) simp

text \<open>
  Claim C10. As stated: for every input string, every token that reaches \<^verbatim>\<open>atoi\<close> denotes
  a value that a signed 32-bit \<^verbatim>\<open>int\<close> can hold, so the conversion never overflows. Under
  \<open>undefined_behaviour\<close> a conversion beyond the range of \<^verbatim>\<open>int\<close> is the fault
  \<open>Unrepresentable\<close>, so the claim says that this fault never occurs. It does: the input
  below passes the three gates and its first token is \<open>2^31\<close>.
\<close>

theorem atoi_overflow_counterexample:
  "verdict undefined_behaviour (Some ''2147483648.1.1.'') = Inl Unrepresentable"
  by (rule overflow_reaches_atoi)

text \<open>
  Claim C10, amended. Every token that reaches \<^verbatim>\<open>atoi\<close> denotes a value below \<open>10^12\<close>
  (it has at most 12 digits), which a signed 64-bit integer can hold and a signed 32-bit
  \<^verbatim>\<open>int\<close> sometimes cannot; and an input with a token beyond the range of \<^verbatim>\<open>int\<close> is
  rejected, whatever \<^verbatim>\<open>int\<close> the conversion hands back. The first part reads: the verdict is
  the same when conversions of values from \<open>10^12\<close> on are faults, so none takes place
  (\<open>token_shape\<close> above gives the tokens themselves, \<open>bound_is_tight\<close> an input that
  reaches \<open>10^12 - 1\<close>).
\<close>

theorem atoi_argument_bound:
  assumes "NUL \<notin> set s"
  shows "verdict (defined_below (10 ^ 12) f) (Some s) = verdict (returning f) (Some s) \<and>
         (verdict undefined_behaviour (Some s) = Inl Unrepresentable \<longrightarrow>
            verdict (returning f) (Some s) = Inr 0)"
proof -
  have "verdict (defined_below (10 ^ 12) f) (Some s) = verdict (returning f) (Some s)"
    by (simp only: verdict_narrowed [OF assms] gates_defined_below)
  moreover have "verdict (returning f) (Some s) = Inr 0"
    if u: "verdict undefined_behaviour (Some s) = Inl Unrepresentable"
  proof (rule ccontr)
    assume n0: "verdict (returning f) (Some s) \<noteq> Inr 0"
    have "\<not> (15 < length s \<and> 7 \<le> wrap32 (int (length s)) \<and> wrap32 (int (length s)) \<le> 15)"
      using u by (auto simp: verdict_narrowed [OF assms])
    then have g: "verdict ovf (Some s) = gates ovf s" for ovf
      by (auto simp: verdict_narrowed [OF assms])
    from n0 have "length (segments s) = 4 \<and> list_all canonical_octet (segments s)"
      by (auto simp: g gates_returning split: if_splits)
    then have "gates undefined_behaviour s = Inr 1"
      by (intro gates_accept) simp_all
    then show False using u by (simp add: g)
  qed
  ultimately show ?thesis by blast
qed

theorem atoi_argument_bound_witness:
  "verdict (defined_below (10 ^ 12) wrap32) (Some ''2147483648.1.1.'') =
     verdict (returning wrap32) (Some ''2147483648.1.1.'') \<and>
   verdict (returning wrap32) (Some ''2147483648.1.1.'') = Inr 0"
  using atoi_argument_bound [of "''2147483648.1.1.''" wrap32] overflow_reaches_atoi
  by (simp add: NUL_def)

end
